theory Spec2Isabelle
  imports Main "HOL-Library.Multiset"
begin

section \<open>MessageRouter: the data model of \<^verbatim>\<open>src/message_router.js\<close>\<close>

text \<open>
  A JavaScript string is modelled as a \<^typ>\<open>string\<close>, one \<^typ>\<open>char\<close> per code unit; the
  empty string is the only falsy string, so \<^verbatim>\<open>if (s)\<close> is \<open>s \<noteq> []\<close>. Listener and message
  ids count up from 1 and are natural numbers, \<^verbatim>\<open>Date.now()\<close> is an argument \<open>now\<close> of the
  operations that read the clock, and a priority is an integer.

  Record fields are global names in Isabelle, so each class of object has a prefix:
  \<open>l_\<close> for a listener, \<open>m_\<close> for a message, \<open>k_\<close> for a lock record, \<open>q_\<close> for a
  queue entry. The fields of the router itself keep their names. A callback is an opaque
  handle. The operations of the first sections record that it was called and with which
  arguments, and describe the calls in which no callback calls back into the router. What
  \<^verbatim>\<open>processQueue\<close> does when callbacks do call back is the subject of the last section.
\<close>

type_synonym callback = nat

record listener =
  l_path :: string
  l_callback :: callback
  l_id :: nat
  l_ownerID :: string
  l_active :: bool
  l_createdAt :: nat

record message =
  m_path :: string
  m_data :: string
  m_senderID :: string
  m_receiverID :: string
  m_timestamp :: nat
  m_messageId :: nat

text \<open>The lock mode is whatever string the caller of \<^verbatim>\<open>lockPath\<close> passed; the four members of
  \<^verbatim>\<open>MessageRouter.LockMode\<close> are the strings below.\<close>

definition STRICT :: string where "STRICT = ''STRICT''"
definition EXCLUSIVE :: string where "EXCLUSIVE = ''EXCLUSIVE''"
definition ANY_SENDER :: string where "ANY_SENDER = ''ANY_SENDER''"
definition ANY_RECEIVER :: string where "ANY_RECEIVER = ''ANY_RECEIVER''"

record lock =
  k_path :: string
  k_mode :: string
  k_senderID :: string
  k_senderOwner :: string
  k_receiverID :: string
  k_receiverOwner :: string
  k_finalized :: bool
  k_timestamp :: nat

record queued =
  q_message :: message
  q_senderPath :: string
  q_priority :: int

record router =
  listeners :: "listener list"
  messageQueue :: "queued list"
  pathLocks :: "string \<rightharpoonup> lock"
  lockedPathQueues :: "string \<rightharpoonup> queued list"
  nextListenerId :: nat
  nextMessageId :: nat

definition MAX_QUEUE_SIZE :: nat where "MAX_QUEUE_SIZE = 50"

text \<open>The constructor.\<close>

definition new_router :: router where
  "new_router = \<lparr> listeners = [], messageQueue = [], pathLocks = Map.empty,
     lockedPathQueues = Map.empty, nextListenerId = 1, nextMessageId = 1 \<rparr>"

text \<open>One call \<^verbatim>\<open>listener.callback(message, targetPath, message.senderID)\<close>: the listener
  whose callback ran and the three arguments.\<close>

datatype call = Call listener message string string

section \<open>Paths\<close>

definition normalizePath :: "string \<Rightarrow> string" where
  "normalizePath path =
     (let normalized = path;
          normalized = (if length normalized > 1 \<and> last normalized = CHR ''/''
                        then butlast normalized else normalized);
          normalized = (if normalized = [] \<or> hd normalized \<noteq> CHR ''/''
                        then CHR ''/'' # normalized else normalized)
      in normalized)"

text \<open>\<^verbatim>\<open>String.prototype.lastIndexOf\<close> for a one-character needle; \<open>None\<close> is \<open>-1\<close>.\<close>

fun lastIndexOf :: "string \<Rightarrow> char \<Rightarrow> nat option" where
  "lastIndexOf [] c = None"
| "lastIndexOf (x # xs) c =
     (case lastIndexOf xs c of
        Some i \<Rightarrow> Some (Suc i)
      | None \<Rightarrow> if x = c then Some 0 else None)"

definition getParentPath :: "string \<Rightarrow> string" where
  "getParentPath path =
     (if path = ''/'' then ''''
      else (case lastIndexOf path CHR ''/'' of
              None \<Rightarrow> ''/''
            | Some lastSlash \<Rightarrow> if lastSlash = 0 then ''/'' else take lastSlash path))"

lemma lastIndexOf_less: "lastIndexOf xs c = Some i \<Longrightarrow> i < length xs"
  by (induction xs arbitrary: i) (auto split: option.splits if_splits)

lemma getParentPath_shrinks:
  "path \<noteq> ''/'' \<Longrightarrow> getParentPath path = ''/'' \<or> length (getParentPath path) < length path"
  by (auto simp: getParentPath_def split: option.splits dest: lastIndexOf_less)

text \<open>The \<^verbatim>\<open>while (currentPath !== '/')\<close> loop of \<^verbatim>\<open>getBubblingPaths\<close>.\<close>

function bubbling_loop :: "string \<Rightarrow> string list" where
  "bubbling_loop currentPath =
     (if currentPath \<noteq> ''/''
      then (let parent = getParentPath currentPath
            in (if parent \<noteq> [] then [parent] else []) @ bubbling_loop parent)
      else [])"
  by pat_completeness auto
termination
proof (relation "measure (\<lambda>p. if p = ''/'' then 0 else Suc (length p))")
  show "wf (measure (\<lambda>p. if p = ''/'' then 0 else Suc (length p)))" by simp
next
  fix currentPath x :: string
  assume "currentPath \<noteq> ''/''" and "x = getParentPath currentPath"
  then show "(x, currentPath) \<in> measure (\<lambda>p. if p = ''/'' then 0 else Suc (length p))"
    using getParentPath_shrinks [of currentPath] by auto
qed

declare bubbling_loop.simps [simp del]

definition getBubblingPaths :: "string \<Rightarrow> string list" where
  "getBubblingPaths path =
     (let currentPath = normalizePath path in currentPath # bubbling_loop currentPath)"

section \<open>Lock admission and immediate dispatch\<close>

definition validateMessageLock :: "router \<Rightarrow> message \<Rightarrow> bool" where
  "validateMessageLock r message =
     (let normalizedPath = normalizePath (m_path message) in
      case pathLocks r normalizedPath of
        None \<Rightarrow> True
      | Some lock \<Rightarrow>
          if k_mode lock = STRICT then
            (if k_senderID lock \<noteq> [] \<and> k_senderID lock \<noteq> m_senderID message then False
             else if k_receiverID lock \<noteq> [] \<and> k_receiverID lock \<noteq> m_receiverID message then False
             else True)
          else if k_mode lock = EXCLUSIVE then
            (if k_senderID lock \<noteq> [] \<and> k_senderID lock \<noteq> m_senderID message then False
             else if k_receiverID lock \<noteq> [] \<and> k_receiverID lock \<noteq> m_receiverID message then False
             else True)
          else if k_mode lock = ANY_SENDER then
            (if k_receiverID lock \<noteq> [] \<and> k_receiverID lock \<noteq> m_receiverID message then False
             else True)
          else if k_mode lock = ANY_RECEIVER then
            (if k_senderID lock \<noteq> [] \<and> k_senderID lock \<noteq> m_senderID message then False
             else True)
          else True)"

text \<open>\<^verbatim>\<open>Number.prototype.toString()\<close> on a listener id: its decimal digits.\<close>

definition digit_char :: "nat \<Rightarrow> char" where
  "digit_char d = ''0123456789'' ! d"

function toString :: "nat \<Rightarrow> string" where
  "toString n = (if n < 10 then [digit_char n] else toString (n div 10) @ [digit_char (n mod 10)])"
  by pat_completeness auto
termination
  by (relation "measure id") auto

declare toString.simps [simp del]

text \<open>The body of the inner loop of \<^verbatim>\<open>processMessageImmediate\<close>, for one target path and
  one listener: the calls it makes (none or one).\<close>

definition deliver :: "message \<Rightarrow> string \<Rightarrow> listener \<Rightarrow> call list" where
  "deliver message targetPath listener =
     (if l_path listener = targetPath \<and> l_active listener then
        (if m_receiverID message \<noteq> [] \<and> toString (l_id listener) \<noteq> m_receiverID message
         then []
         else [Call listener message targetPath (m_senderID message)])
      else [])"

text \<open>Returns the boolean the method returns and the callback calls it made, in order. The
  router is not changed. A callback that throws is caught, so the loops always run on.\<close>

definition processMessageImmediate :: "router \<Rightarrow> message \<Rightarrow> string \<Rightarrow> bool \<times> call list" where
  "processMessageImmediate r message senderPath =
     (let normalizedPath = normalizePath (m_path message) in
      if pathLocks r normalizedPath \<noteq> None then (False, [])
      else if \<not> validateMessageLock r message then (False, [])
      else
        (let targetPaths = getBubblingPaths (m_path message)
         in (True, concat (map (\<lambda>targetPath. concat (map (deliver message targetPath) (listeners r)))
                            targetPaths))))"

section \<open>Listeners\<close>

text \<open>Every operation takes the router and returns what the method returns together with
  the router after the call (and, where callbacks may run, the calls made).\<close>

definition addListener :: "router \<Rightarrow> string \<Rightarrow> callback \<Rightarrow> string \<Rightarrow> nat \<Rightarrow> nat \<times> router" where
  "addListener r path callback ownerID now =
     (let normalizedPath = normalizePath path;
          id' = nextListenerId r;
          listener = \<lparr> l_path = normalizedPath, l_callback = callback, l_id = id',
                       l_ownerID = ownerID, l_active = True, l_createdAt = now \<rparr>
      in (id', r\<lparr> nextListenerId := Suc (nextListenerId r),
                   listeners := listeners r @ [listener] \<rparr>))"

text \<open>\<^verbatim>\<open>Array.prototype.findIndex\<close>; \<open>None\<close> is \<open>-1\<close>.\<close>

fun findIndex :: "('a \<Rightarrow> bool) \<Rightarrow> 'a list \<Rightarrow> nat option" where
  "findIndex P [] = None"
| "findIndex P (x # xs) = (if P x then Some 0 else map_option Suc (findIndex P xs))"

definition removeListener :: "router \<Rightarrow> nat \<Rightarrow> bool \<times> router" where
  "removeListener r listenerId =
     (case findIndex (\<lambda>l. l_id l = listenerId) (listeners r) of
        Some index \<Rightarrow>
          (True, r\<lparr> listeners := take index (listeners r) @ drop (Suc index) (listeners r) \<rparr>)
      | None \<Rightarrow> (False, r))"

fun removeListeners_loop :: "router \<Rightarrow> nat list \<Rightarrow> nat \<Rightarrow> nat \<times> router" where
  "removeListeners_loop r [] removedCount = (removedCount, r)"
| "removeListeners_loop r (id' # ids) removedCount =
     (if fst (removeListener r id')
      then removeListeners_loop (snd (removeListener r id')) ids (Suc removedCount)
      else removeListeners_loop (snd (removeListener r id')) ids removedCount)"

definition removeListeners :: "router \<Rightarrow> nat list \<Rightarrow> nat \<times> router" where
  "removeListeners r listenerIds = removeListeners_loop r listenerIds 0"

definition removeListenersByPath :: "router \<Rightarrow> string \<Rightarrow> nat \<times> router" where
  "removeListenersByPath r path =
     (let normalizedPath = normalizePath path;
          initialLength = length (listeners r);
          r1 = r\<lparr> listeners := filter (\<lambda>listener. l_path listener \<noteq> normalizedPath) (listeners r) \<rparr>
      in (initialLength - length (listeners r1), r1))"

definition removeListenersByOwner :: "router \<Rightarrow> string \<Rightarrow> nat \<times> router" where
  "removeListenersByOwner r ownerID =
     (let initialLength = length (listeners r);
          r1 = r\<lparr> listeners := filter (\<lambda>listener. l_ownerID listener \<noteq> ownerID) (listeners r) \<rparr>
      in (initialLength - length (listeners r1), r1))"

definition setListenerActive :: "router \<Rightarrow> nat \<Rightarrow> bool \<Rightarrow> bool \<times> router" where
  "setListenerActive r listenerId active =
     (case findIndex (\<lambda>l. l_id l = listenerId) (listeners r) of
        Some index \<Rightarrow>
          (True, r\<lparr> listeners := (listeners r)[index := (listeners r ! index)\<lparr> l_active := active \<rparr>] \<rparr>)
      | None \<Rightarrow> (False, r))"

definition clearListeners :: "router \<Rightarrow> router" where
  "clearListeners r = r\<lparr> listeners := [] \<rparr>"

section \<open>Locks\<close>

definition lockPath ::
  "router \<Rightarrow> string \<Rightarrow> string \<Rightarrow> string \<Rightarrow> string \<Rightarrow> string \<Rightarrow> nat \<Rightarrow> bool \<times> router" where
  "lockPath r path mode ownerID senderID receiverID now =
     (let normalizedPath = normalizePath path;
          existing = pathLocks r normalizedPath
      in if (case existing of Some e \<Rightarrow> k_finalized e | None \<Rightarrow> False) then (False, r)
         else
           (let lock = \<lparr> k_path = normalizedPath, k_mode = mode,
                          k_senderID = senderID,
                          k_senderOwner = (if senderID \<noteq> [] then ownerID else []),
                          k_receiverID = receiverID,
                          k_receiverOwner = (if receiverID \<noteq> [] then ownerID else []),
                          k_finalized = False, k_timestamp = now \<rparr>;
                r1 = r\<lparr> pathLocks := (pathLocks r)(normalizedPath \<mapsto> lock) \<rparr>;
                r2 = (if lockedPathQueues r1 normalizedPath = None
                      then r1\<lparr> lockedPathQueues := (lockedPathQueues r1)(normalizedPath \<mapsto> []) \<rparr>
                      else r1)
            in (True, r2)))"

text \<open>The \<^verbatim>\<open>for (const queuedMsg of queuedMessages)\<close> loop of \<^verbatim>\<open>unlockPath\<close>: each entry goes
  through \<^verbatim>\<open>processMessageImmediate\<close>, whose result is ignored. The router is the same at
  every turn as long as no callback calls back into it.\<close>

fun replay :: "router \<Rightarrow> queued list \<Rightarrow> call list" where
  "replay r [] = []"
| "replay r (queuedMsg # rest) =
     snd (processMessageImmediate r (q_message queuedMsg) (q_senderPath queuedMsg)) @ replay r rest"

definition unlockPath :: "router \<Rightarrow> string \<Rightarrow> string \<Rightarrow> bool \<times> router \<times> call list" where
  "unlockPath r path ownerID =
     (let normalizedPath = normalizePath path
      in case pathLocks r normalizedPath of
           None \<Rightarrow> (False, r, [])
         | Some lock \<Rightarrow>
             if k_finalized lock then (False, r, [])
             else if k_senderOwner lock \<noteq> ownerID \<and> k_receiverOwner lock \<noteq> ownerID
             then (False, r, [])
             else
               (let r1 = r\<lparr> pathLocks := (pathLocks r)(normalizedPath := None) \<rparr>;
                    queuedMessages = (case lockedPathQueues r1 normalizedPath of
                                        Some queue \<Rightarrow> queue | None \<Rightarrow> []);
                    calls = replay r1 queuedMessages;
                    r2 = r1\<lparr> lockedPathQueues := (lockedPathQueues r1)(normalizedPath := None) \<rparr>
                in (True, r2, calls)))"

definition finalizeLock :: "router \<Rightarrow> string \<Rightarrow> string \<Rightarrow> bool \<times> router" where
  "finalizeLock r path ownerID =
     (let normalizedPath = normalizePath path
      in case pathLocks r normalizedPath of
           None \<Rightarrow> (False, r)
         | Some lock \<Rightarrow>
             if k_senderOwner lock \<noteq> ownerID \<and> k_receiverOwner lock \<noteq> ownerID
             then (False, r)
             else (True, r\<lparr> pathLocks :=
                              (pathLocks r)(normalizedPath \<mapsto> lock\<lparr> k_finalized := True \<rparr>) \<rparr>))"

definition getLockStatus :: "router \<Rightarrow> string \<Rightarrow> lock option" where
  "getLockStatus r path = pathLocks r (normalizePath path)"

definition clearLocks :: "router \<Rightarrow> router" where
  "clearLocks r = r\<lparr> pathLocks := Map.empty, lockedPathQueues := Map.empty \<rparr>"

section \<open>Sending and queueing\<close>

definition sendMessage ::
  "router \<Rightarrow> string \<Rightarrow> string \<Rightarrow> string \<Rightarrow> string \<Rightarrow> bool \<Rightarrow> nat \<Rightarrow> bool \<times> router \<times> call list" where
  "sendMessage r path data senderID receiverID queueIfLocked now =
     (let normalizedPath = normalizePath path;
          message = \<lparr> m_path = normalizedPath, m_data = data, m_senderID = senderID,
                      m_receiverID = receiverID, m_timestamp = now,
                      m_messageId = nextMessageId r \<rparr>;
          r1 = r\<lparr> nextMessageId := Suc (nextMessageId r) \<rparr>
      in if pathLocks r1 normalizedPath \<noteq> None then
           (if queueIfLocked then
              (let queue = (case lockedPathQueues r1 normalizedPath of
                              Some queue \<Rightarrow> queue | None \<Rightarrow> []);
                   queue = queue @ [\<lparr> q_message = message, q_senderPath = [], q_priority = 0 \<rparr>]
               in (False, r1\<lparr> lockedPathQueues := (lockedPathQueues r1)(normalizedPath \<mapsto> queue) \<rparr>, []))
            else (False, r1, []))
         else
           (let result = processMessageImmediate r1 message []
            in (fst result, r1, snd result)))"

definition queueMessage ::
  "router \<Rightarrow> string \<Rightarrow> string \<Rightarrow> string \<Rightarrow> string \<Rightarrow> int \<Rightarrow> nat \<Rightarrow> bool \<times> router" where
  "queueMessage r path data senderID receiverID priority now =
     (let r1 = (if length (messageQueue r) \<ge> MAX_QUEUE_SIZE
                then r\<lparr> messageQueue := tl (messageQueue r) \<rparr> else r);
          message = \<lparr> m_path = normalizePath path, m_data = data, m_senderID = senderID,
                      m_receiverID = receiverID, m_timestamp = now,
                      m_messageId = nextMessageId r1 \<rparr>;
          r2 = r1\<lparr> nextMessageId := Suc (nextMessageId r1) \<rparr>
      in (True, r2\<lparr> messageQueue := messageQueue r2 @
                        [\<lparr> q_message = message, q_senderPath = [], q_priority = priority \<rparr>] \<rparr>))"

text \<open>The \<^verbatim>\<open>while (this.messageQueue.length > 0)\<close> loop of \<^verbatim>\<open>processQueue\<close>: shift the first
  entry off the queue, dispatch it, go on. Between two turns the router changes only when a
  callback calls back into it; this is the loop without such callbacks, and
  \<open>processQueue_loop_re\<close> below is the loop with them.\<close>

function processQueue_loop :: "router \<Rightarrow> router \<times> call list" where
  "processQueue_loop r =
     (if length (messageQueue r) > 0
      then (let queuedMsg = hd (messageQueue r);
                r1 = r\<lparr> messageQueue := tl (messageQueue r) \<rparr>;
                calls = snd (processMessageImmediate r1 (q_message queuedMsg) (q_senderPath queuedMsg));
                rest = processQueue_loop r1
            in (fst rest, calls @ snd rest))
      else (r, []))"
  by pat_completeness auto
termination
  by (relation "measure (\<lambda>r. length (messageQueue r))") auto

declare processQueue_loop.simps [simp del]

text \<open>\<^verbatim>\<open>this.messageQueue.sort((a, b) => b.priority - a.priority)\<close>: \<^verbatim>\<open>Array.prototype.sort\<close> is
  a stable sort (ECMAScript 2019), and the comparator puts the higher priority first, so the
  result is the stable sort on the negated priority.\<close>

definition processQueue :: "router \<Rightarrow> router \<times> call list" where
  "processQueue r =
     processQueue_loop (r\<lparr> messageQueue := sort_key (\<lambda>q. - q_priority q) (messageQueue r) \<rparr>)"

definition getQueueSize :: "router \<Rightarrow> nat" where
  "getQueueSize r = length (messageQueue r)"

definition clearQueue :: "router \<Rightarrow> router" where
  "clearQueue r = r\<lparr> messageQueue := [] \<rparr>"

section \<open>Sequences of calls\<close>

text \<open>One public call that can change the router, with its arguments.\<close>

datatype op =
    AddListener string callback string nat
  | RemoveListener nat
  | RemoveListeners "nat list"
  | RemoveListenersByPath string
  | RemoveListenersByOwner string
  | SetListenerActive nat bool
  | ClearListeners
  | LockPath string string string string string nat
  | UnlockPath string string
  | FinalizeLock string string
  | ClearLocks
  | SendMessage string string string string bool nat
  | QueueMessage string string string string int nat
  | ProcessQueue
  | ClearQueue

fun step :: "router \<Rightarrow> op \<Rightarrow> router" where
  "step r (AddListener path callback ownerID now) = snd (addListener r path callback ownerID now)"
| "step r (RemoveListener listenerId) = snd (removeListener r listenerId)"
| "step r (RemoveListeners listenerIds) = snd (removeListeners r listenerIds)"
| "step r (RemoveListenersByPath path) = snd (removeListenersByPath r path)"
| "step r (RemoveListenersByOwner ownerID) = snd (removeListenersByOwner r ownerID)"
| "step r (SetListenerActive listenerId active) = snd (setListenerActive r listenerId active)"
| "step r ClearListeners = clearListeners r"
| "step r (LockPath path mode ownerID senderID receiverID now) =
     snd (lockPath r path mode ownerID senderID receiverID now)"
| "step r (UnlockPath path ownerID) = fst (snd (unlockPath r path ownerID))"
| "step r (FinalizeLock path ownerID) = snd (finalizeLock r path ownerID)"
| "step r ClearLocks = clearLocks r"
| "step r (SendMessage path data senderID receiverID queueIfLocked now) =
     fst (snd (sendMessage r path data senderID receiverID queueIfLocked now))"
| "step r (QueueMessage path data senderID receiverID priority now) =
     snd (queueMessage r path data senderID receiverID priority now)"
| "step r ProcessQueue = fst (processQueue r)"
| "step r ClearQueue = clearQueue r"

definition run :: "router \<Rightarrow> op list \<Rightarrow> router" where
  "run r ops = foldl step r ops"

section \<open>Example routers\<close>

definition lock0 :: lock where
  "lock0 = \<lparr> k_path = ''/x'', k_mode = STRICT, k_senderID = ''S'', k_senderOwner = ''O'',
      k_receiverID = ''R'', k_receiverOwner = ''O'', k_finalized = False, k_timestamp = 0 \<rparr>"

definition msg0 :: message where
  "msg0 = \<lparr> m_path = ''/x'', m_data = ''d'', m_senderID = ''T'', m_receiverID = ''R'',
      m_timestamp = 0, m_messageId = 1 \<rparr>"

text \<open>The router after \<^verbatim>\<open>lockPath('/x', 'STRICT', 'O', 'S', 'R')\<close> on a new router.\<close>

definition locked_router :: router where
  "locked_router = new_router\<lparr> pathLocks := [''/x'' \<mapsto> lock0], lockedPathQueues := [''/x'' \<mapsto> []] \<rparr>"

section \<open>Normalisation\<close>

lemma normalizePath_fixed:
  "p \<noteq> [] \<Longrightarrow> hd p = CHR ''/'' \<Longrightarrow> (length p > 1 \<Longrightarrow> last p \<noteq> CHR ''/'') \<Longrightarrow> normalizePath p = p"
  by (auto simp: normalizePath_def Let_def)

lemma normalizePath_head: "normalizePath p \<noteq> [] \<and> hd (normalizePath p) = CHR ''/''"
  by (auto simp: normalizePath_def Let_def)

lemma normalizePath_last:
  assumes "\<not> (\<exists>r. r \<noteq> [] \<and> p = r @ ''//'')" and "length (normalizePath p) > 1"
  shows "last (normalizePath p) \<noteq> CHR ''/''"
proof (cases p rule: rev_cases)
  case Nil
  with assms show ?thesis by (simp add: normalizePath_def)
next
  case (snoc ys y)
  show ?thesis
  proof (cases ys rule: rev_cases)
    case Nil
    with snoc assms show ?thesis by (auto simp: normalizePath_def Let_def split: if_splits)
  next
    case (snoc zs z)
    with \<open>p = ys @ [y]\<close> have p: "p = zs @ [z, y]" by simp
    show ?thesis
    proof (cases "y = CHR ''/''")
      case False
      with p show ?thesis by (auto simp: normalizePath_def Let_def)
    next
      case True
      show ?thesis
      proof (cases "zs = []")
        case True
        with p \<open>y = CHR ''/''\<close> assms show ?thesis
          by (auto simp: normalizePath_def Let_def split: if_splits)
      next
        case False
        with p \<open>y = CHR ''/''\<close> assms(1) have "z \<noteq> CHR ''/''" by auto
        with p \<open>y = CHR ''/''\<close> False show ?thesis
          by (auto simp: normalizePath_def Let_def butlast_append)
      qed
    qed
  qed
qed

text \<open>Normalising twice is the same as normalising once for every path that does not end in
  two slashes after a non-empty prefix \<dots>\<close>

lemma normalizePath_idem:
  "\<not> (\<exists>r. r \<noteq> [] \<and> p = r @ ''//'') \<Longrightarrow> normalizePath (normalizePath p) = normalizePath p"
  using normalizePath_fixed [of "normalizePath p"] normalizePath_head [of p] normalizePath_last [of p]
  by blast

lemma normalizePath_strips:
  "length n > 1 \<Longrightarrow> hd n = CHR ''/'' \<Longrightarrow> last n = CHR ''/'' \<Longrightarrow> normalizePath n = butlast n"
  by (cases n rule: rev_cases) (auto simp: normalizePath_def Let_def hd_append split: if_splits)

text \<open>\<dots> and for every other path it is not: only one of the trailing slashes is removed by
  the first pass, and the second pass removes another.\<close>

lemma normalizePath_not_idem:
  assumes "r \<noteq> []"
  shows "normalizePath (normalizePath (r @ ''//'')) \<noteq> normalizePath (r @ ''//'')"
proof -
  let ?n = "normalizePath (r @ ''//'')"
  have 1: "?n = (if hd r = CHR ''/'' then r @ ''/'' else CHR ''/'' # r @ ''/'')"
    using assms by (auto simp: normalizePath_def Let_def butlast_append hd_append)
  then have "length ?n > 1" "hd ?n = CHR ''/''" "last ?n = CHR ''/''"
    using assms by (auto simp: hd_append)
  then have "normalizePath ?n = butlast ?n"
    by (rule normalizePath_strips)
  moreover have "butlast ?n \<noteq> ?n"
    using 1 by (auto split: if_splits)
  ultimately show ?thesis by simp
qed

text \<open>
  C2. The specification has \<^verbatim>\<open>normalizePath\<close> idempotent on every string. The code removes a
  single trailing slash, so on \<^verbatim>\<open>"a//"\<close> the first pass gives \<^verbatim>\<open>"/a/"\<close>, which still ends in a
  slash, and the second pass gives \<^verbatim>\<open>"/a"\<close>.
\<close>

theorem normalizePath_twice_differs:
  "normalizePath ''a//'' = ''/a/'' \<and> normalizePath (normalizePath ''a//'') = ''/a'' \<and>
   normalizePath (normalizePath ''a//'') \<noteq> normalizePath ''a//''"
  by (simp add: normalizePath_def)

section \<open>Admission and dispatch\<close>

text \<open>
  C1. \<^verbatim>\<open>processMessageImmediate\<close> returns \<open>false\<close> whenever the message's normalised path has
  a lock record, whatever the lock's mode and whatever the sender and receiver of the message;
  it returns \<open>true\<close> exactly when there is no such record, whatever the listeners are. A
  blocked message reaches no callback.
\<close>

theorem processMessageImmediate_true_iff_unlocked:
  "fst (processMessageImmediate r message senderPath) =
     (pathLocks r (normalizePath (m_path message)) = None) \<and>
   (if pathLocks r (normalizePath (m_path message)) = None then True
    else snd (processMessageImmediate r message senderPath) = []) \<and>
   fst (processMessageImmediate (r\<lparr> listeners := ls \<rparr>) message senderPath) =
     fst (processMessageImmediate r message senderPath)"
  by (simp add: processMessageImmediate_def validateMessageLock_def Let_def)

text \<open>The two ways a lock can disagree with a message, in the words of the specification.\<close>

definition sender_mismatch :: "lock \<Rightarrow> message \<Rightarrow> bool" where
  "sender_mismatch lock message \<longleftrightarrow>
     k_senderID lock \<noteq> [] \<and> k_senderID lock \<noteq> m_senderID message"

definition receiver_mismatch :: "lock \<Rightarrow> message \<Rightarrow> bool" where
  "receiver_mismatch lock message \<longleftrightarrow>
     k_receiverID lock \<noteq> [] \<and> k_receiverID lock \<noteq> m_receiverID message"

lemma modes_distinct:
  "STRICT \<noteq> EXCLUSIVE" "STRICT \<noteq> ANY_SENDER" "STRICT \<noteq> ANY_RECEIVER"
  "EXCLUSIVE \<noteq> ANY_SENDER" "EXCLUSIVE \<noteq> ANY_RECEIVER" "ANY_SENDER \<noteq> ANY_RECEIVER"
  by (simp_all add: STRICT_def EXCLUSIVE_def ANY_SENDER_def ANY_RECEIVER_def)

text \<open>
  C4. \<^verbatim>\<open>validateMessageLock\<close> admits every message whose normalised path has no lock. With a
  lock, under \<open>STRICT\<close> and under \<open>EXCLUSIVE\<close> alike it rejects exactly on a sender mismatch or
  a receiver mismatch, under \<open>ANY_SENDER\<close> exactly on a receiver mismatch, and under
  \<open>ANY_RECEIVER\<close> exactly on a sender mismatch.
\<close>

theorem validateMessageLock_admission:
  "(pathLocks r (normalizePath (m_path message)) = None \<longrightarrow> validateMessageLock r message) \<and>
   (\<forall>lock. pathLocks r (normalizePath (m_path message)) = Some lock \<longrightarrow>
      (k_mode lock = STRICT \<or> k_mode lock = EXCLUSIVE \<longrightarrow>
         (\<not> validateMessageLock r message) =
           (sender_mismatch lock message \<or> receiver_mismatch lock message)) \<and>
      (k_mode lock = ANY_SENDER \<longrightarrow>
         (\<not> validateMessageLock r message) = receiver_mismatch lock message) \<and>
      (k_mode lock = ANY_RECEIVER \<longrightarrow>
         (\<not> validateMessageLock r message) = sender_mismatch lock message))"
  using modes_distinct
  by (auto simp: validateMessageLock_def Let_def sender_mismatch_def receiver_mismatch_def)

theorem validateMessageLock_admission_witness:
  "pathLocks locked_router (normalizePath (m_path msg0)) = Some lock0 \<and>
   k_mode lock0 = STRICT \<and> sender_mismatch lock0 msg0 \<and>
   \<not> validateMessageLock locked_router msg0"
proof -
  have 1: "pathLocks locked_router (normalizePath (m_path msg0)) = Some lock0"
    by (simp add: locked_router_def msg0_def normalizePath_def)
  have 2: "k_mode lock0 = STRICT"
    by (simp add: lock0_def)
  have 3: "sender_mismatch lock0 msg0"
    by (simp add: sender_mismatch_def lock0_def msg0_def)
  from validateMessageLock_admission [of locked_router msg0] 1 2 3 show ?thesis
    by blast
qed

section \<open>Unlocking and finalising\<close>

text \<open>
  C5. \<^verbatim>\<open>unlockPath\<close> returns \<open>false\<close> exactly when the normalised path has no lock, or the
  lock is finalized, or the owner is neither the lock's sender owner nor its receiver owner;
  and then the router is what it was (the lock, its queue and everything else) and no
  callback has run.
\<close>

theorem unlockPath_fails_iff:
  "(\<not> fst (unlockPath r path ownerID)) =
     (case pathLocks r (normalizePath path) of
        None \<Rightarrow> True
      | Some lock \<Rightarrow> k_finalized lock \<or>
          (k_senderOwner lock \<noteq> ownerID \<and> k_receiverOwner lock \<noteq> ownerID)) \<and>
   (\<not> fst (unlockPath r path ownerID) \<longrightarrow>
      fst (snd (unlockPath r path ownerID)) = r \<and> snd (snd (unlockPath r path ownerID)) = [])"
  by (auto simp: unlockPath_def Let_def split: option.splits)

theorem unlockPath_fails_iff_witness:
  "\<not> fst (unlockPath locked_router ''/x'' ''P'') \<and>
   fst (snd (unlockPath locked_router ''/x'' ''P'')) = locked_router \<and>
   snd (snd (unlockPath locked_router ''/x'' ''P'')) = []"
proof -
  have "pathLocks locked_router (normalizePath ''/x'') = Some lock0"
    by (simp add: locked_router_def normalizePath_def)
  moreover have "k_senderOwner lock0 \<noteq> ''P'' \<and> k_receiverOwner lock0 \<noteq> ''P''"
    by (simp add: lock0_def)
  ultimately show ?thesis
    using unlockPath_fails_iff [of locked_router "''/x''" "''P''"] by simp
qed

text \<open>
  C9. A lock made with an empty senderID and an empty receiverID has both owners empty. On
  its path, \<^verbatim>\<open>unlockPath\<close> and \<^verbatim>\<open>finalizeLock\<close> return \<open>false\<close> for every non-empty owner,
  the one that made the lock included, and pass the ownership check for the empty owner.
\<close>

theorem unrestricted_lock_owner:
  "fst (lockPath r path mode ownerID [] [] now) \<Longrightarrow>
   (let r1 = snd (lockPath r path mode ownerID [] [] now)
    in (\<exists>lock. pathLocks r1 (normalizePath path) = Some lock \<and>
                k_senderOwner lock = [] \<and> k_receiverOwner lock = []) \<and>
       (\<forall>other. other \<noteq> [] \<longrightarrow>
          \<not> fst (unlockPath r1 path other) \<and> \<not> fst (finalizeLock r1 path other)) \<and>
       (ownerID \<noteq> [] \<longrightarrow>
          \<not> fst (unlockPath r1 path ownerID) \<and> \<not> fst (finalizeLock r1 path ownerID)) \<and>
       fst (unlockPath r1 path []) \<and> fst (finalizeLock r1 path []))"
  by (auto simp: lockPath_def unlockPath_def finalizeLock_def Let_def
           split: option.splits if_splits)

theorem unrestricted_lock_owner_witness:
  "fst (lockPath new_router ''/x'' STRICT ''O'' [] [] 0) \<and>
   \<not> fst (unlockPath (snd (lockPath new_router ''/x'' STRICT ''O'' [] [] 0)) ''/x'' ''O'') \<and>
   \<not> fst (finalizeLock (snd (lockPath new_router ''/x'' STRICT ''O'' [] [] 0)) ''/x'' ''O'') \<and>
   fst (unlockPath (snd (lockPath new_router ''/x'' STRICT ''O'' [] [] 0)) ''/x'' [])"
proof -
  have ok: "fst (lockPath new_router ''/x'' STRICT ''O'' [] [] 0)"
    by (simp add: lockPath_def new_router_def Let_def)
  from unrestricted_lock_owner [OF ok] ok show ?thesis
    by (simp add: Let_def)
qed

section \<open>What a dispatch depends on\<close>

lemma processMessageImmediate_cong:
  "listeners r' = listeners r \<Longrightarrow> pathLocks r' = pathLocks r \<Longrightarrow>
   processMessageImmediate r' message senderPath = processMessageImmediate r message senderPath"
  by (simp add: processMessageImmediate_def validateMessageLock_def Let_def)

lemma replay_concat:
  "replay r qs = concat (map (\<lambda>q. snd (processMessageImmediate r (q_message q) (q_senderPath q))) qs)"
  by (induction qs) simp_all

text \<open>The loop of \<^verbatim>\<open>processQueue\<close> empties the queue and dispatches its entries from the
  front.\<close>

lemma processQueue_loop_eq:
  "processQueue_loop r = (r\<lparr> messageQueue := [] \<rparr>, replay r (messageQueue r))"
proof (induction "messageQueue r" arbitrary: r)
  case Nil
  then show ?case by (simp add: processQueue_loop.simps [of r])
next
  case (Cons q qs)
  let ?r1 = "r\<lparr> messageQueue := tl (messageQueue r) \<rparr>"
  from Cons.hyps(2) have mq: "messageQueue r = q # qs" by simp
  then have "qs = messageQueue ?r1" by simp
  then have ih: "processQueue_loop ?r1 = (?r1\<lparr> messageQueue := [] \<rparr>, replay ?r1 (messageQueue ?r1))"
    by (rule Cons.hyps(1))
  have same: "\<And>m sp. processMessageImmediate ?r1 m sp = processMessageImmediate r m sp"
    by (rule processMessageImmediate_cong) simp_all
  have "replay ?r1 qs = replay r qs"
    by (simp add: replay_concat same)
  with ih mq same show ?case
    by (simp add: processQueue_loop.simps [of r] Let_def)
qed

lemma processQueue_eq:
  "processQueue r =
     (r\<lparr> messageQueue := [] \<rparr>, replay r (sort_key (\<lambda>q. - q_priority q) (messageQueue r)))"
proof -
  let ?r0 = "r\<lparr> messageQueue := sort_key (\<lambda>q. - q_priority q) (messageQueue r) \<rparr>"
  have "\<And>m sp. processMessageImmediate ?r0 m sp = processMessageImmediate r m sp"
    by (rule processMessageImmediate_cong) simp_all
  then have "replay ?r0 (messageQueue ?r0) = replay r (messageQueue ?r0)"
    by (simp add: replay_concat)
  then show ?thesis
    by (simp add: processQueue_def processQueue_loop_eq)
qed

lemma removeListeners_loop_frame:
  "pathLocks (snd (removeListeners_loop r ids n)) = pathLocks r \<and>
   lockedPathQueues (snd (removeListeners_loop r ids n)) = lockedPathQueues r \<and>
   messageQueue (snd (removeListeners_loop r ids n)) = messageQueue r"
  by (induction ids arbitrary: r n) (auto simp: removeListener_def split: option.splits)

section \<open>Finalisation\<close>

lemma step_keeps_finalized:
  assumes "op \<noteq> ClearLocks" and "pathLocks r k = Some l" and "k_finalized l"
  shows "pathLocks (step r op) k = Some l"
proof (cases op)
  case (LockPath path mode ownerID senderID receiverID now)
  with assms show ?thesis by (auto simp: lockPath_def Let_def)
next
  case (UnlockPath path ownerID)
  with assms show ?thesis by (auto simp: unlockPath_def Let_def split: option.splits)
next
  case (FinalizeLock path ownerID)
  with assms show ?thesis by (auto simp: finalizeLock_def Let_def split: option.splits)
next
  case (SendMessage path data senderID receiverID queueIfLocked now)
  with assms show ?thesis by (auto simp: sendMessage_def Let_def split: option.splits)
next
  case (RemoveListeners ids)
  with assms show ?thesis by (simp add: removeListeners_def removeListeners_loop_frame)
next
  case ProcessQueue
  with assms show ?thesis by (simp add: processQueue_eq)
qed (use assms in \<open>auto simp: addListener_def removeListener_def removeListenersByPath_def
      removeListenersByOwner_def setListenerActive_def clearListeners_def queueMessage_def
      clearQueue_def Let_def split: option.splits\<close>)

lemma run_keeps_finalized:
  "ClearLocks \<notin> set ops \<Longrightarrow> pathLocks r k = Some l \<Longrightarrow> k_finalized l \<Longrightarrow>
   pathLocks (run r ops) k = Some l"
  unfolding run_def
  by (induction ops arbitrary: r) (auto simp: step_keeps_finalized)

text \<open>
  C6. Once \<^verbatim>\<open>finalizeLock\<close> has succeeded on a path, then after any sequence of calls in
  which \<^verbatim>\<open>clearLocks\<close> does not occur (calls of \<^verbatim>\<open>lockPath\<close> and \<^verbatim>\<open>unlockPath\<close> on the same
  path among them) the finalized lock record is still the one on the path, and a
  \<^verbatim>\<open>lockPath\<close> or \<^verbatim>\<open>unlockPath\<close> call on that path, by any owner and with any arguments,
  returns \<open>false\<close> and leaves the router as it is.
\<close>

theorem finalized_is_terminal:
  assumes "fst (finalizeLock r path ownerID)"
    and "ClearLocks \<notin> set ops"
    and "normalizePath path' = normalizePath path"
  shows "(let r1 = snd (finalizeLock r path ownerID); r2 = run r1 ops
          in (\<exists>lock. pathLocks r1 (normalizePath path) = Some lock \<and> k_finalized lock) \<and>
             pathLocks r2 (normalizePath path) = pathLocks r1 (normalizePath path) \<and>
             \<not> fst (lockPath r2 path' mode owner' senderID receiverID now) \<and>
             snd (lockPath r2 path' mode owner' senderID receiverID now) = r2 \<and>
             \<not> fst (unlockPath r2 path' owner') \<and>
             fst (snd (unlockPath r2 path' owner')) = r2)"
proof -
  let ?r1 = "snd (finalizeLock r path ownerID)"
  from assms(1) obtain lock
    where l: "pathLocks ?r1 (normalizePath path) = Some lock" "k_finalized lock"
    by (auto simp: finalizeLock_def Let_def split: option.splits if_splits)
  from run_keeps_finalized [OF assms(2) l]
  have "pathLocks (run ?r1 ops) (normalizePath path) = Some lock" .
  with l assms(3) show ?thesis
    by (simp add: Let_def lockPath_def unlockPath_def)
qed

text \<open>A run after the finalisation that tries to unlock, send, lock again and drain.\<close>

definition ops0 :: "op list" where
  "ops0 = [UnlockPath ''/x'' ''O'', SendMessage ''/x'' ''d'' ''S'' ''R'' True 1,
           LockPath ''x/'' ANY_SENDER ''Q'' [] ''R'' 2, ProcessQueue]"

theorem finalized_is_terminal_witness:
  "fst (finalizeLock locked_router ''/x'' ''O'') \<and> ClearLocks \<notin> set ops0 \<and>
   normalizePath ''x/'' = normalizePath ''/x'' \<and>
   \<not> fst (lockPath (run (snd (finalizeLock locked_router ''/x'' ''O'')) ops0) ''x/'' STRICT ''O'' ''S'' ''R'' 3) \<and>
   \<not> fst (unlockPath (run (snd (finalizeLock locked_router ''/x'' ''O'')) ops0) ''x/'' ''O'')"
proof -
  have 1: "fst (finalizeLock locked_router ''/x'' ''O'')"
    by (simp add: finalizeLock_def locked_router_def lock0_def normalizePath_def Let_def)
  have 2: "ClearLocks \<notin> set ops0" by (simp add: ops0_def)
  have 3: "normalizePath ''x/'' = normalizePath ''/x''" by (simp add: normalizePath_def)
  from finalized_is_terminal [OF 1 2 3, of STRICT "''O''" "''S''" "''R''" 3] 1 2 3
  show ?thesis by (simp add: Let_def)
qed

section \<open>The global queue\<close>

lemma queueMessage_queue:
  "messageQueue (snd (queueMessage r path data senderID receiverID priority now)) =
     (if length (messageQueue r) \<ge> MAX_QUEUE_SIZE then tl (messageQueue r) else messageQueue r) @
     [\<lparr> q_message = \<lparr> m_path = normalizePath path, m_data = data, m_senderID = senderID,
                       m_receiverID = receiverID, m_timestamp = now,
                       m_messageId = nextMessageId r \<rparr>,
        q_senderPath = [], q_priority = priority \<rparr>]"
  by (simp add: queueMessage_def Let_def)

lemma queueMessage_nextMessageId:
  "nextMessageId (snd (queueMessage r path data senderID receiverID priority now)) =
     Suc (nextMessageId r)"
  by (simp add: queueMessage_def Let_def)

lemma step_queue_bound:
  assumes "length (messageQueue r) \<le> MAX_QUEUE_SIZE"
  shows "length (messageQueue (step r op)) \<le> MAX_QUEUE_SIZE"
proof (cases op)
  case (QueueMessage path data senderID receiverID priority now)
  with assms show ?thesis by (auto simp: queueMessage_queue MAX_QUEUE_SIZE_def)
next
  case (UnlockPath path ownerID)
  with assms show ?thesis by (auto simp: unlockPath_def Let_def split: option.splits)
next
  case (SendMessage path data senderID receiverID queueIfLocked now)
  with assms show ?thesis by (auto simp: sendMessage_def Let_def split: option.splits)
next
  case (RemoveListeners ids)
  with assms show ?thesis by (simp add: removeListeners_def removeListeners_loop_frame)
next
  case ProcessQueue
  with assms show ?thesis by (simp add: processQueue_eq)
qed (use assms in \<open>auto simp: addListener_def removeListener_def removeListenersByPath_def
      removeListenersByOwner_def setListenerActive_def clearListeners_def lockPath_def
      finalizeLock_def clearLocks_def clearQueue_def Let_def split: option.splits\<close>)

lemma run_queue_bound:
  "length (messageQueue r) \<le> MAX_QUEUE_SIZE \<Longrightarrow> length (messageQueue (run r ops)) \<le> MAX_QUEUE_SIZE"
  unfolding run_def
  by (induction ops arbitrary: r) (auto simp: step_queue_bound)

text \<open>The arguments of one \<^verbatim>\<open>queueMessage\<close> call, and the queue entry the call makes when
  the message counter stands at \<open>i\<close>.\<close>

type_synonym queue_args = "string \<times> string \<times> string \<times> string \<times> int \<times> nat"

definition enqueue_op :: "queue_args \<Rightarrow> op" where
  "enqueue_op a = (case a of (path, data, senderID, receiverID, priority, now) \<Rightarrow>
     QueueMessage path data senderID receiverID priority now)"

definition queued_of :: "queue_args \<Rightarrow> nat \<Rightarrow> queued" where
  "queued_of a i = (case a of (path, data, senderID, receiverID, priority, now) \<Rightarrow>
     \<lparr> q_message = \<lparr> m_path = normalizePath path, m_data = data, m_senderID = senderID,
                      m_receiverID = receiverID, m_timestamp = now, m_messageId = i \<rparr>,
       q_senderPath = [], q_priority = priority \<rparr>)"

lemma run_snoc: "run r (ops @ [op]) = step (run r ops) op"
  by (simp add: run_def)

lemma enqueue_all:
  assumes "messageQueue r = []"
  shows "messageQueue (run r (map enqueue_op as)) =
           drop (length as - MAX_QUEUE_SIZE)
             (map2 queued_of as [nextMessageId r ..< nextMessageId r + length as]) \<and>
         nextMessageId (run r (map enqueue_op as)) = nextMessageId r + length as"
proof (induction as rule: rev_induct)
  case Nil
  with assms show ?case by (simp add: run_def)
next
  case (snoc a as)
  let ?r = "run r (map enqueue_op as)"
  let ?n = "nextMessageId r"
  let ?all = "map2 queued_of as [?n ..< ?n + length as]"
  obtain path data senderID receiverID priority now
    where a: "a = (path, data, senderID, receiverID, priority, now)"
    by (cases a) auto
  have q: "messageQueue ?r = drop (length as - MAX_QUEUE_SIZE) ?all"
    and n: "nextMessageId ?r = ?n + length as"
    using snoc.IH by simp_all
  have len: "length ?all = length as" by simp
  have all': "map2 queued_of (as @ [a]) [?n ..< ?n + length (as @ [a])] = ?all @ [queued_of a (?n + length as)]"
    by simp
  have step: "messageQueue (run r (map enqueue_op (as @ [a]))) =
      (if length (messageQueue ?r) \<ge> MAX_QUEUE_SIZE then tl (messageQueue ?r) else messageQueue ?r) @
      [queued_of a (?n + length as)]"
    by (simp add: run_snoc enqueue_op_def a queueMessage_queue queued_of_def n)
  have "(if length (messageQueue ?r) \<ge> MAX_QUEUE_SIZE then tl (messageQueue ?r) else messageQueue ?r) =
        drop (length (as @ [a]) - MAX_QUEUE_SIZE) ?all"
  proof (cases "MAX_QUEUE_SIZE \<le> length as")
    case True
    then have "length (as @ [a]) - MAX_QUEUE_SIZE = Suc (length as - MAX_QUEUE_SIZE)"
      by simp
    moreover from True have "length (messageQueue ?r) \<ge> MAX_QUEUE_SIZE"
      using len by (simp add: q MAX_QUEUE_SIZE_def)
    ultimately show ?thesis
      by (simp add: q drop_Suc tl_drop)
  next
    case False
    then have "length (messageQueue ?r) < MAX_QUEUE_SIZE"
      using len by (simp add: q)
    with False show ?thesis
      by (simp add: q)
  qed
  moreover have "length (as @ [a]) - MAX_QUEUE_SIZE \<le> length ?all"
    using len by (simp add: MAX_QUEUE_SIZE_def)
  ultimately have "messageQueue (run r (map enqueue_op (as @ [a]))) =
      drop (length (as @ [a]) - MAX_QUEUE_SIZE) (?all @ [queued_of a (?n + length as)])"
    using step by simp
  moreover have "nextMessageId (run r (map enqueue_op (as @ [a]))) = ?n + length (as @ [a])"
    by (simp add: run_snoc enqueue_op_def a queueMessage_nextMessageId n)
  ultimately show ?case
    using all' by simp
qed

text \<open>
  \<^verbatim>\<open>queueMessage\<close> always returns \<open>true\<close>. It appends the new entry, after dropping the
  entry at the head of the queue when the queue already holds \<open>MAX_QUEUE_SIZE\<close> entries or
  more. After 51 calls in a row on a router with an empty queue the queue holds the entries
  of calls 2 to 51, in order, so its size is 50 and the entry of the first call is gone.
  Over the calls of the first sections the size of the global queue stays at or below 50.
\<close>

lemma queueMessage_drops_head:
  "fst (queueMessage r path data senderID receiverID priority now) \<and>
   messageQueue (snd (queueMessage r path data senderID receiverID priority now)) =
     (if length (messageQueue r) \<ge> MAX_QUEUE_SIZE then tl (messageQueue r) else messageQueue r) @
     [queued_of (path, data, senderID, receiverID, priority, now) (nextMessageId r)] \<and>
   (messageQueue r0 = [] \<and> length as = 51 \<longrightarrow>
      getQueueSize (run r0 (map enqueue_op as)) = 50 \<and>
      messageQueue (run r0 (map enqueue_op as)) =
        map2 queued_of (tl as) [Suc (nextMessageId r0) ..< nextMessageId r0 + 51] \<and>
      queued_of (hd as) (nextMessageId r0) \<notin> set (messageQueue (run r0 (map enqueue_op as)))) \<and>
   (getQueueSize r0 \<le> 50 \<longrightarrow> getQueueSize (run r0 ops) \<le> 50) \<and>
   getQueueSize (run new_router ops) \<le> 50"
proof -
  have 1: "fst (queueMessage r path data senderID receiverID priority now)"
    by (simp add: queueMessage_def Let_def)
  have 2: "messageQueue (snd (queueMessage r path data senderID receiverID priority now)) =
     (if length (messageQueue r) \<ge> MAX_QUEUE_SIZE then tl (messageQueue r) else messageQueue r) @
     [queued_of (path, data, senderID, receiverID, priority, now) (nextMessageId r)]"
    by (simp add: queueMessage_queue queued_of_def)
  have 3: "getQueueSize (run r0 (map enqueue_op as)) = 50 \<and>
      messageQueue (run r0 (map enqueue_op as)) =
        map2 queued_of (tl as) [Suc (nextMessageId r0) ..< nextMessageId r0 + 51] \<and>
      queued_of (hd as) (nextMessageId r0) \<notin> set (messageQueue (run r0 (map enqueue_op as)))"
    if e: "messageQueue r0 = []" and l: "length as = 51"
  proof -
    let ?n = "nextMessageId r0"
    from l obtain a as' where as: "as = a # as'" and l': "length as' = 50"
      by (cases as) auto
    have "messageQueue (run r0 (map enqueue_op as)) =
            drop (length as - MAX_QUEUE_SIZE) (map2 queued_of as [?n ..< ?n + length as])"
      using enqueue_all [OF e, of as] by simp
    also have "\<dots> = map2 queued_of as' [Suc ?n ..< ?n + 51]"
    proof -
      have k: "length as - MAX_QUEUE_SIZE = Suc 0"
        using l by (simp add: MAX_QUEUE_SIZE_def)
      have u: "[?n ..< ?n + length as] = ?n # [Suc ?n ..< ?n + 51]"
        using l by (simp add: upt_conv_Cons)
      have "drop (length as - MAX_QUEUE_SIZE) (map2 queued_of as [?n ..< ?n + length as]) =
            drop (Suc 0) (map2 queued_of as (?n # [Suc ?n ..< ?n + 51]))"
        by (simp only: k u)
      also have "\<dots> = map2 queued_of as' [Suc ?n ..< ?n + 51]"
        by (simp add: as)
      finally show ?thesis .
    qed
    finally have q: "messageQueue (run r0 (map enqueue_op as)) =
        map2 queued_of as' [Suc ?n ..< ?n + 51]" .
    have "m_messageId (q_message e) > ?n"
      if "e \<in> set (map2 queued_of as' [Suc ?n ..< ?n + 51])" for e
    proof -
      from that obtain x i
        where xi: "(x, i) \<in> set (zip as' [Suc ?n ..< ?n + 51])" and e: "e = queued_of x i"
        by auto
      from xi have "i \<in> set [Suc ?n ..< ?n + 51]"
        by (rule set_zip_rightD)
      then have "?n < i"
        by simp
      with e show ?thesis
        by (simp add: queued_of_def split: prod.splits)
    qed
    moreover have "m_messageId (q_message (queued_of a ?n)) = ?n"
      by (simp add: queued_of_def split: prod.splits)
    ultimately have "queued_of a ?n \<notin> set (map2 queued_of as' [Suc ?n ..< ?n + 51])"
      by fastforce
    with q l' show ?thesis
      by (simp add: as getQueueSize_def)
  qed
  have 4: "getQueueSize (run r0 ops) \<le> 50" if "getQueueSize r0 \<le> 50"
    using that run_queue_bound [of r0 ops]
    by (simp add: getQueueSize_def MAX_QUEUE_SIZE_def)
  have 5: "getQueueSize (run new_router ops) \<le> 50"
    using run_queue_bound [of new_router ops]
    by (simp add: getQueueSize_def MAX_QUEUE_SIZE_def new_router_def)
  from 1 2 3 4 5 show ?thesis by blast
qed

lemma queueMessage_drops_head_example:
  "messageQueue new_router = [] \<and>
   length (replicate 51 (''/q'', ''d'', [], [], 0::int, 0::nat)) = 51 \<and>
   getQueueSize new_router \<le> 50 \<and>
   getQueueSize (run new_router (map enqueue_op (replicate 51 (''/q'', ''d'', [], [], 0, 0)))) = 50 \<and>
   getQueueSize (run new_router [QueueMessage ''/q'' ''d'' [] [] 0 0, ProcessQueue]) \<le> 50"
proof -
  have e: "messageQueue new_router = []" "getQueueSize new_router \<le> 50"
    by (simp_all add: new_router_def getQueueSize_def)
  have l: "length (replicate 51 (''/q'', ''d'', [], [], 0::int, 0::nat)) = 51"
    by simp
  from queueMessage_drops_head [of new_router "''/q''" "''d''" "[]" "[]" 0 0 new_router
      "replicate 51 (''/q'', ''d'', [], [], 0, 0)" "[QueueMessage ''/q'' ''d'' [] [] 0 0, ProcessQueue]"]
    e l
  show ?thesis by simp
qed

section \<open>Draining the global queue\<close>

text \<open>
  When no callback calls back into the router, the callbacks \<^verbatim>\<open>processQueue\<close> calls are those
  of \<^verbatim>\<open>processMessageImmediate\<close> on each entry of the queue sorted by descending priority,
  one entry after the other. The sorted queue has every entry of the queue exactly once,
  priorities never increase along it, and entries of equal priority keep their enqueue
  order. Afterwards the global queue is empty and nothing else in the router has changed.
\<close>

lemma processQueue_calls:
  "(let sorted = sort_key (\<lambda>q. - q_priority q) (messageQueue r)
    in snd (processQueue r) =
         concat (map (\<lambda>q. snd (processMessageImmediate r (q_message q) (q_senderPath q))) sorted) \<and>
       fst (processQueue r) = r\<lparr> messageQueue := [] \<rparr> \<and>
       mset sorted = mset (messageQueue r) \<and>
       sorted_wrt (\<lambda>a b. q_priority a \<ge> q_priority b) sorted \<and>
       (\<forall>k. filter (\<lambda>q. q_priority q = k) sorted = filter (\<lambda>q. q_priority q = k) (messageQueue r)) \<and>
       (\<forall>q \<in> set (messageQueue r).
          pathLocks r (normalizePath (m_path (q_message q))) \<noteq> None \<longrightarrow>
            snd (processMessageImmediate r (q_message q) (q_senderPath q)) = []))"
proof -
  let ?s = "sort_key (\<lambda>q. - q_priority q) (messageQueue r)"
  have 1: "snd (processQueue r) =
         concat (map (\<lambda>q. snd (processMessageImmediate r (q_message q) (q_senderPath q))) ?s)"
    by (simp add: processQueue_eq replay_concat)
  have 2: "fst (processQueue r) = r\<lparr> messageQueue := [] \<rparr>"
    by (simp add: processQueue_eq)
  have 3: "mset ?s = mset (messageQueue r)" by simp
  have "sorted (map (\<lambda>q. - q_priority q) ?s)" by (rule sorted_sort_key)
  then have 4: "sorted_wrt (\<lambda>a b. q_priority a \<ge> q_priority b) ?s"
    by (simp add: sorted_map sorted_wrt_iff_nth_less)
  have 5: "filter (\<lambda>q. q_priority q = k) ?s = filter (\<lambda>q. q_priority q = k) (messageQueue r)" for k
    using sort_key_stable [of "\<lambda>q. - q_priority q" "- k" "messageQueue r"] by simp
  have 6: "snd (processMessageImmediate r (q_message q) (q_senderPath q)) = []"
    if "pathLocks r (normalizePath (m_path (q_message q))) \<noteq> None" for q
    using that by (simp add: processMessageImmediate_def Let_def)
  from 1 2 3 4 5 6 show ?thesis
    by (auto simp: Let_def)
qed

text \<open>A router with a listener on the root, a lock on \<^verbatim>\<open>/x\<close> and five queued entries.\<close>

definition root_listener :: listener where
  "root_listener = \<lparr> l_path = ''/'', l_callback = 7, l_id = 1, l_ownerID = ''system'',
      l_active = True, l_createdAt = 0 \<rparr>"

definition entry :: "string \<Rightarrow> nat \<Rightarrow> int \<Rightarrow> queued" where
  "entry p i pr = \<lparr> q_message = \<lparr> m_path = p, m_data = ''d'', m_senderID = ''S'', m_receiverID = [],
      m_timestamp = 0, m_messageId = i \<rparr>, q_senderPath = [], q_priority = pr \<rparr>"

definition queue_router :: router where
  "queue_router = locked_router\<lparr> listeners := [root_listener],
     messageQueue := [entry ''/a'' 1 1, entry ''/x'' 2 9, entry ''/b'' 3 5, entry ''/c'' 4 3, entry ''/d'' 5 5] \<rparr>"

definition call_id :: "call \<Rightarrow> nat" where
  "call_id c = (case c of Call listener message targetPath senderID \<Rightarrow> m_messageId message)"

lemma processQueue_calls_example:
  "entry ''/x'' 2 9 \<in> set (messageQueue queue_router) \<and>
   pathLocks queue_router (normalizePath (m_path (q_message (entry ''/x'' 2 9)))) \<noteq> None \<and>
   snd (processMessageImmediate queue_router (q_message (entry ''/x'' 2 9))
          (q_senderPath (entry ''/x'' 2 9))) = [] \<and>
   map call_id (snd (processQueue queue_router)) = [3, 5, 4, 1] \<and>
   messageQueue (fst (processQueue queue_router)) = [] \<and>
   lockedPathQueues (fst (processQueue queue_router)) ''/x'' = Some []"
proof -
  have 1: "entry ''/x'' 2 9 \<in> set (messageQueue queue_router)"
    by (simp add: queue_router_def)
  have 2: "pathLocks queue_router (normalizePath (m_path (q_message (entry ''/x'' 2 9)))) \<noteq> None"
    by code_simp
  have 3: "map call_id (snd (processQueue queue_router)) = [3, 5, 4, 1]"
    by code_simp
  have 4: "lockedPathQueues (queue_router\<lparr> messageQueue := [] \<rparr>) ''/x'' = Some []"
    by (simp add: queue_router_def locked_router_def)
  from processQueue_calls [of queue_router] 1 2 3 4 show ?thesis
    by (simp add: Let_def)
qed

text \<open>The example of the specification: priorities 1, 5, 3 on unlocked paths are dispatched
  in the order 5, 3, 1, and the queue is empty afterwards.\<close>

lemma processQueue_example:
  "map (\<lambda>c. case c of Call l m p s \<Rightarrow> m_data m)
     (snd (processQueue (run new_router
        [AddListener ''/'' 7 ''system'' 0,
         QueueMessage ''/a'' ''one'' [] [] 1 1,
         QueueMessage ''/b'' ''five'' [] [] 5 2,
         QueueMessage ''/c'' ''three'' [] [] 3 3]))) = [''five'', ''three'', ''one''] \<and>
   getQueueSize (fst (processQueue (run new_router
        [AddListener ''/'' 7 ''system'' 0,
         QueueMessage ''/a'' ''one'' [] [] 1 1,
         QueueMessage ''/b'' ''five'' [] [] 5 2,
         QueueMessage ''/c'' ''three'' [] [] 3 3]))) = 0"
  by code_simp

section \<open>Replay on unlock\<close>

text \<open>What a successful \<^verbatim>\<open>unlockPath\<close> does, for every router: the lock record is removed,
  then every entry of the path's queue goes through \<^verbatim>\<open>processMessageImmediate\<close> on the
  router without that lock, first entry first, and the queue entry of the path is removed.\<close>

lemma unlockPath_replays:
  assumes "fst (unlockPath r path ownerID)"
  shows "(let np = normalizePath path;
              r1 = r\<lparr> pathLocks := (pathLocks r)(np := None) \<rparr>;
              queue = (case lockedPathQueues r np of Some queue \<Rightarrow> queue | None \<Rightarrow> [])
          in fst (snd (unlockPath r path ownerID)) =
               r1\<lparr> lockedPathQueues := (lockedPathQueues r)(np := None) \<rparr> \<and>
             snd (snd (unlockPath r path ownerID)) =
               concat (map (\<lambda>q. snd (processMessageImmediate r1 (q_message q) (q_senderPath q)))
                        queue))"
  using assms
  by (auto simp: unlockPath_def Let_def replay_concat split: option.splits if_splits)

text \<open>Every entry of a per-path queue was put there by \<^verbatim>\<open>sendMessage\<close>, with the key of the
  queue as its path.\<close>

definition queues_wf :: "router \<Rightarrow> bool" where
  "queues_wf r \<longleftrightarrow>
     (\<forall>k queue. lockedPathQueues r k = Some queue \<longrightarrow> (\<forall>q \<in> set queue. m_path (q_message q) = k))"

lemma step_queues_wf:
  assumes "queues_wf r"
  shows "queues_wf (step r op)"
proof (cases op)
  case (LockPath path mode ownerID senderID receiverID now)
  with assms show ?thesis by (auto simp: queues_wf_def lockPath_def Let_def split: if_splits)
next
  case (UnlockPath path ownerID)
  with assms show ?thesis
    by (auto simp: queues_wf_def unlockPath_def Let_def split: option.splits if_splits)
next
  case (FinalizeLock path ownerID)
  with assms show ?thesis by (auto simp: queues_wf_def finalizeLock_def Let_def split: option.splits)
next
  case (SendMessage path data senderID receiverID queueIfLocked now)
  with assms show ?thesis
    by (auto simp: queues_wf_def sendMessage_def Let_def split: option.splits if_splits) metis
next
  case (RemoveListeners ids)
  with assms show ?thesis by (simp add: queues_wf_def removeListeners_def removeListeners_loop_frame)
next
  case ProcessQueue
  with assms show ?thesis by (simp add: queues_wf_def processQueue_eq)
qed (use assms in \<open>auto simp: queues_wf_def addListener_def removeListener_def
      removeListenersByPath_def removeListenersByOwner_def setListenerActive_def
      clearListeners_def queueMessage_def clearLocks_def clearQueue_def Let_def
      split: option.splits\<close>)

lemma run_queues_wf: "queues_wf (run new_router ops)"
proof -
  have "queues_wf r \<Longrightarrow> queues_wf (run r ops)" for r
    unfolding run_def by (induction ops arbitrary: r) (auto simp: step_queues_wf)
  moreover have "queues_wf new_router"
    by (simp add: queues_wf_def new_router_def)
  ultimately show ?thesis by blast
qed

text \<open>On a router reached from the constructor, and for a path whose normal form is stable,
  every replayed entry passes the lock check of \<^verbatim>\<open>processMessageImmediate\<close>.\<close>

lemma unlockPath_replay_unblocked:
  assumes "normalizePath (normalizePath path) = normalizePath path"
    and "lockedPathQueues (run new_router ops) (normalizePath path) = Some queue"
    and "q \<in> set queue"
  shows "fst (processMessageImmediate
           ((run new_router ops)\<lparr> pathLocks := (pathLocks (run new_router ops))(normalizePath path := None) \<rparr>)
           (q_message q) (q_senderPath q))"
proof -
  from run_queues_wf [of ops] assms(2,3) have "m_path (q_message q) = normalizePath path"
    by (auto simp: queues_wf_def)
  with assms(1) show ?thesis
    by (simp add: processMessageImmediate_def validateMessageLock_def Let_def)
qed

definition ops3 :: "op list" where
  "ops3 = [AddListener ''/a'' 7 ''own'' 0, LockPath ''a//'' STRICT ''O'' ''S'' ''R'' 1,
           LockPath ''/a'' STRICT ''O2'' ''S'' ''R'' 2, SendMessage ''a//'' ''d'' ''S'' [] True 3]"

text \<open>
  C3. The specification has the messages replayed by a successful \<^verbatim>\<open>unlockPath\<close>
  dispatched as unlocked sends and delivered in order. The steps are in the stated order
  (\<open>unlockPath_replays\<close>), and the replayed messages do pass the lock check when the path's
  normal form is stable (\<open>unlockPath_replay_unblocked\<close>). For the path \<^verbatim>\<open>"a//"\<close> it is not:
  the lock and the queue are kept under \<^verbatim>\<open>"/a/"\<close>, the queued message carries the path
  \<^verbatim>\<open>"/a/"\<close>, and \<^verbatim>\<open>processMessageImmediate\<close> normalises that again and checks the lock of
  \<^verbatim>\<open>"/a"\<close>. In the run below \<^verbatim>\<open>"/a"\<close> is locked too and has an active listener: \<^verbatim>\<open>unlockPath\<close>
  returns \<open>true\<close>, no callback is called, and the message is in no queue afterwards.
\<close>

theorem unlockPath_replay_blocked:
  "lockedPathQueues (run new_router ops3) (normalizePath ''a//'') =
     Some [\<lparr> q_message = \<lparr> m_path = ''/a/'', m_data = ''d'', m_senderID = ''S'',
                             m_receiverID = [], m_timestamp = 3, m_messageId = 1 \<rparr>,
              q_senderPath = [], q_priority = 0 \<rparr>] \<and>
   pathLocks (run new_router ops3) ''/a'' \<noteq> None \<and>
   map l_path (filter l_active (listeners (run new_router ops3))) = [''/a''] \<and>
   fst (unlockPath (run new_router ops3) ''a//'' ''O'') \<and>
   snd (snd (unlockPath (run new_router ops3) ''a//'' ''O'')) = [] \<and>
   pathLocks (fst (snd (unlockPath (run new_router ops3) ''a//'' ''O''))) (normalizePath ''a//'') = None \<and>
   lockedPathQueues (fst (snd (unlockPath (run new_router ops3) ''a//'' ''O''))) (normalizePath ''a//'') = None \<and>
   lockedPathQueues (fst (snd (unlockPath (run new_router ops3) ''a//'' ''O''))) ''/a'' = Some [] \<and>
   messageQueue (fst (snd (unlockPath (run new_router ops3) ''a//'' ''O''))) = []"
  by code_simp

section \<open>Locks on ancestors\<close>

lemma sendMessage_unlocked:
  assumes "pathLocks r (normalizePath path) = None"
    and "normalizePath (normalizePath path) = normalizePath path"
  shows "(let message = \<lparr> m_path = normalizePath path, m_data = data, m_senderID = senderID,
                          m_receiverID = receiverID, m_timestamp = now,
                          m_messageId = nextMessageId r \<rparr>
          in fst (sendMessage r path data senderID receiverID queueIfLocked now) \<and>
             fst (snd (sendMessage r path data senderID receiverID queueIfLocked now)) =
               r\<lparr> nextMessageId := Suc (nextMessageId r) \<rparr> \<and>
             snd (snd (sendMessage r path data senderID receiverID queueIfLocked now)) =
               concat (map (\<lambda>targetPath. concat (map (deliver message targetPath) (listeners r)))
                        (getBubblingPaths (normalizePath path))))"
  using assms
  by (simp add: sendMessage_def processMessageImmediate_def validateMessageLock_def Let_def)

definition ops10 :: "op list" where
  "ops10 = [AddListener ''/'' 7 ''system'' 0, LockPath ''/a'' STRICT ''O'' ''S'' ''R'' 1]"

text \<open>
  C10. A send to a path whose own normal form is unlocked should be dispatched at once,
  whatever locks its ancestors have. That holds when the normal form is stable
  (\<open>sendMessage_unlocked\<close>: the result does not depend on any other lock). For \<^verbatim>\<open>"a//"\<close>
  the normal form \<^verbatim>\<open>"/a/"\<close> is unlocked and \<^verbatim>\<open>sendMessage\<close> goes on to
  \<^verbatim>\<open>processMessageImmediate\<close>, which normalises \<^verbatim>\<open>"/a/"\<close> again and finds the lock of its
  parent \<^verbatim>\<open>"/a"\<close>: the send returns \<open>false\<close>, no callback is called and nothing is queued.
\<close>

theorem sendMessage_blocked_by_ancestor:
  "pathLocks (run new_router ops10) (normalizePath ''a//'') = None \<and>
   getBubblingPaths ''a//'' = [''/a/'', ''/a'', ''/''] \<and>
   pathLocks (run new_router ops10) ''/a'' \<noteq> None \<and>
   map l_path (filter l_active (listeners (run new_router ops10))) = [''/''] \<and>
   \<not> fst (sendMessage (run new_router ops10) ''a//'' ''d'' ''S'' [] True 2) \<and>
   snd (snd (sendMessage (run new_router ops10) ''a//'' ''d'' ''S'' [] True 2)) = [] \<and>
   lockedPathQueues (fst (snd (sendMessage (run new_router ops10) ''a//'' ''d'' ''S'' [] True 2)))
     (normalizePath ''a//'') = None \<and>
   lockedPathQueues (fst (snd (sendMessage (run new_router ops10) ''a//'' ''d'' ''S'' [] True 2)))
     ''/a'' = Some []"
  by code_simp

section \<open>Callbacks that call back into the router\<close>

text \<open>
  A callback runs inside the loops of \<^verbatim>\<open>processMessageImmediate\<close>, on the caller's stack, and
  it may call any method of the router. \<^verbatim>\<open>processMessageImmediate\<close> itself writes no field
  of the router, so whatever has changed when it returns was changed by the callbacks it
  ran. A \<open>fanout\<close> stands for that: given the state \<open>'e\<close> of the callbacks' own variables,
  the router and the message, it gives both after the two loops have run. When the lock
  check blocks the message no callback runs and nothing changes.
\<close>

type_synonym 'e fanout = "'e \<Rightarrow> router \<Rightarrow> message \<Rightarrow> 'e \<times> router"

definition processMessageImmediate_re ::
  "'e fanout \<Rightarrow> 'e \<Rightarrow> router \<Rightarrow> message \<Rightarrow> string \<Rightarrow> bool \<times> 'e \<times> router" where
  "processMessageImmediate_re fanout e r message senderPath =
     (let normalizedPath = normalizePath (m_path message) in
      if pathLocks r normalizedPath \<noteq> None then (False, e, r)
      else if \<not> validateMessageLock r message then (False, e, r)
      else (True, fanout e r message))"

text \<open>
  The loop of \<^verbatim>\<open>processQueue\<close> reads \<^verbatim>\<open>this.messageQueue\<close> again at every turn, after the
  callbacks of the turn before have run. A callback can put entries on the queue for ever,
  so the loop has fuel, one unit per turn, and \<open>None\<close> says that the fuel did not suffice.
  The result holds the entries that were shifted off the queue and dispatched, in order, each
  with the boolean \<^verbatim>\<open>processMessageImmediate\<close> returned for it.
\<close>

fun processQueue_loop_re ::
  "nat \<Rightarrow> 'e fanout \<Rightarrow> 'e \<Rightarrow> router \<Rightarrow> ('e \<times> router \<times> (queued \<times> bool) list) option" where
  "processQueue_loop_re 0 fanout e r = None"
| "processQueue_loop_re (Suc fuel) fanout e r =
     (if length (messageQueue r) > 0
      then (let queuedMsg = hd (messageQueue r);
                r1 = r\<lparr> messageQueue := tl (messageQueue r) \<rparr>;
                result = processMessageImmediate_re fanout e r1
                           (q_message queuedMsg) (q_senderPath queuedMsg)
            in case processQueue_loop_re fuel fanout (fst (snd result)) (snd (snd result)) of
                 None \<Rightarrow> None
               | Some (e', r', log) \<Rightarrow> Some (e', r', (queuedMsg, fst result) # log))
      else Some (e, r, []))"

definition processQueue_re ::
  "nat \<Rightarrow> 'e fanout \<Rightarrow> 'e \<Rightarrow> router \<Rightarrow> ('e \<times> router \<times> (queued \<times> bool) list) option" where
  "processQueue_re fuel fanout e r =
     processQueue_loop_re fuel fanout e
       (r\<lparr> messageQueue := sort_key (\<lambda>q. - q_priority q) (messageQueue r) \<rparr>)"

text \<open>
  The fan-out of callbacks that leave the listeners alone: the loops then make the calls
  \<^verbatim>\<open>processMessageImmediate\<close> makes on the router as it was, and each call does to the router
  what \<open>action\<close> says, one after the other.
\<close>

definition each_call :: "(call \<Rightarrow> router \<Rightarrow> router) \<Rightarrow> 'e fanout" where
  "each_call action e r message =
     (e, foldl (\<lambda>r c. action c r) r (snd (processMessageImmediate r message [])))"

text \<open>Readings of a result: whether the loop ended, the ids of the dispatched messages,
  the booleans returned for them, and the ids left on the global queue.\<close>

definition returned :: "'a option \<Rightarrow> bool" where
  "returned res \<longleftrightarrow> res \<noteq> None"

definition dispatched_ids :: "('e \<times> router \<times> (queued \<times> bool) list) option \<Rightarrow> nat list" where
  "dispatched_ids res =
     (case res of None \<Rightarrow> []
      | Some (e, r, log) \<Rightarrow> map (\<lambda>(q, ok). m_messageId (q_message q)) log)"


definition queue_ids :: "router \<Rightarrow> nat list" where
  "queue_ids r = map (\<lambda>q. m_messageId (q_message q)) (messageQueue r)"




text \<open>With callbacks that do nothing to the router, the drain ends in the router that
  \<open>processQueue\<close> of the first sections gives.\<close>

lemma processQueue_loop_re_inert:
  "length (messageQueue r) < fuel \<Longrightarrow>
   \<exists>log. processQueue_loop_re fuel (\<lambda>e r m. (e, r)) e r = Some (e, r\<lparr> messageQueue := [] \<rparr>, log)"
proof (induction fuel arbitrary: r)
  case 0
  then show ?case by simp
next
  case (Suc fuel)
  show ?case
  proof (cases "messageQueue r")
    case Nil
    then show ?thesis by simp
  next
    case (Cons q qs)
    let ?r1 = "r\<lparr> messageQueue := tl (messageQueue r) \<rparr>"
    have res: "snd (processMessageImmediate_re (\<lambda>e r m. (e, r)) e ?r1 (q_message q) (q_senderPath q)) =
                 (e, ?r1)"
      by (simp add: processMessageImmediate_re_def Let_def)
    from Suc.prems Cons have "length (messageQueue ?r1) < fuel" by simp
    from Suc.IH [OF this] obtain log
      where "processQueue_loop_re fuel (\<lambda>e r m. (e, r)) e ?r1 = Some (e, ?r1\<lparr> messageQueue := [] \<rparr>, log)"
      by blast
    with Cons res show ?thesis
      by (simp add: Let_def)
  qed
qed

lemma processQueue_re_inert:
  "length (messageQueue r) < fuel \<Longrightarrow>
   \<exists>log. processQueue_re fuel (\<lambda>e r m. (e, r)) e r = Some (e, fst (processQueue r), log)"
  using processQueue_loop_re_inert
    [of "r\<lparr> messageQueue := sort_key (\<lambda>q. - q_priority q) (messageQueue r) \<rparr>" fuel e]
  by (simp add: processQueue_re_def processQueue_eq)


subsection \<open>A callback that clears the queue\<close>




subsection \<open>Callbacks that leave the global queue as it is\<close>




subsection \<open>A callback that queues messages\<close>

text \<open>The callback of the root listener calls \<^verbatim>\<open>queueMessage\<close> twice when it is given the
  message with id 50, and does nothing otherwise.\<close>

definition enqueue_twice :: "call \<Rightarrow> router \<Rightarrow> router" where
  "enqueue_twice c r =
     (case c of Call listener message targetPath senderID \<Rightarrow>
        if m_messageId message = 50
        then snd (queueMessage (snd (queueMessage r ''/n'' ''x'' [] [] 0 0)) ''/n'' ''y'' [] [] 0 0)
        else r)"

text \<open>A listener on the root and fifty queued messages; message \<open>i\<close> has priority \<open>i\<close>.\<close>

definition ops7 :: "op list" where
  "ops7 = AddListener ''/'' 7 ''system'' 0 #
          map (\<lambda>i. QueueMessage ''/m'' ''d'' [] [] (int i) 0) [1 ..< 51]"

text \<open>
  C7. \<^verbatim>\<open>queueMessage\<close> on a full queue should evict the oldest entry, the one enqueued
  first. It removes the entry at the head of the queue (\<open>queueMessage_drops_head\<close>), and
  \<^verbatim>\<open>processQueue\<close> sorts the queue in place before it drains it, so during a drain the head is
  the pending entry of highest priority. In the run below the queue is full with the
  messages 1 to 50. \<^verbatim>\<open>processQueue\<close> shifts message 50 off and dispatches it; its callback
  queues message 51, which fills the queue again, and message 52, which evicts message 49
  while the messages 1 to 48 stay. Message 49 is never dispatched.
\<close>

theorem queueMessage_evicts_pending_entry:
  "queue_ids (run new_router ops7) = [1 ..< 51] \<and>
   queue_ids (snd (snd (processMessageImmediate_re (each_call enqueue_twice) ()
     ((run new_router ops7)\<lparr> messageQueue :=
        tl (sort_key (\<lambda>q. - q_priority q) (messageQueue (run new_router ops7))) \<rparr>)
     (q_message (hd (sort_key (\<lambda>q. - q_priority q) (messageQueue (run new_router ops7))))) []))) =
     rev [1 ..< 49] @ [51, 52] \<and>
   returned (processQueue_re 60 (each_call enqueue_twice) () (run new_router ops7)) \<and>
   dispatched_ids (processQueue_re 60 (each_call enqueue_twice) () (run new_router ops7)) =
     50 # rev [1 ..< 49] @ [51, 52]"
  by code_simp

end
